theory Spec2Isabelle
  imports Main "HOL-Library.Word" "HOL-Library.Multiset"
begin

section \<open>Memory model\<close>

text \<open>
  \<^verbatim>\<open>mls::List<T, Allocator>\<close> (src/List.hpp) is a circular doubly-linked list around a
  sentinel node \<^verbatim>\<open>fake_node_\<close> that is a member of the \<^verbatim>\<open>List\<close> object itself. All its
  operations rewrite raw \<^verbatim>\<open>next_\<close>/\<^verbatim>\<open>prev_\<close> pointers, and two lists may meet in one
  call (\<^verbatim>\<open>merge\<close>, \<^verbatim>\<open>swap\<close>, assignment), so the model is an explicit store shared by all
  lists.

  An address is a natural number, \<open>0\<close> is \<^verbatim>\<open>nullptr\<close>. The three fields of
  \<^verbatim>\<open>List_Node<T>\<close> are three maps from the node's address (a component-wise heap);
  Isabelle does not accept names that end in an underscore, so the fields \<^verbatim>\<open>data_\<close>,
  \<^verbatim>\<open>next_\<close>, \<^verbatim>\<open>prev_\<close>, \<^verbatim>\<open>sz_\<close> carry the suffix \<open>f\<close>. A \<^verbatim>\<open>List\<close> object is
  identified with the address of its \<^verbatim>\<open>fake_node_\<close> (\<^verbatim>\<open>this\<close>), and \<open>sz_f h this\<close> is
  its \<^verbatim>\<open>size_t sz_\<close>, a 64-bit unsigned integer. \<open>live h\<close> is the set of node addresses
  handed out by \<^verbatim>\<open>node_alloc_.allocate\<close> and not yet given back by
  \<^verbatim>\<open>node_alloc_.deallocate\<close>; the sentinels are not in it, they never pass through
  the allocator. Reading a field of an address that is not live is undefined behaviour
  in C++; the model returns whatever the store holds there, so every theorem about
  well-formed lists below states the well-formedness it relies on.
\<close>

type_synonym addr = nat

record 'a heap =
  data_f :: "addr \<Rightarrow> 'a"
  next_f :: "addr \<Rightarrow> addr"
  prev_f :: "addr \<Rightarrow> addr"
  sz_f :: "addr \<Rightarrow> 64 word"
  live :: "addr set"

text \<open>
  The allocator is a template parameter of the list. \<open>allocate\<close> answers with a fresh
  address or fails (\<open>None\<close>, the C++ \<^verbatim>\<open>std::bad_alloc\<close>) given the set of live nodes;
  \<open>construct\<close> runs the element's converting constructor, which may throw (\<open>None\<close>).
\<close>

record 'a node_alloc =
  allocate :: "addr set \<Rightarrow> addr option"
  construct :: "'a \<Rightarrow> 'a option"

datatype exn = Bad_alloc | Ctor_exception

section \<open>Private helpers\<close>

text \<open>\<^verbatim>\<open>obj_construct\<close>: allocate one node, then construct it in place
  (\<^verbatim>\<open>List_Node(U&& el) : data_(el), next_(nullptr), prev_(nullptr)\<close>). When \<^verbatim>\<open>construct\<close>
  throws the function is left by the exception and nothing gives the block back.\<close>

definition obj_construct :: "'a node_alloc \<Rightarrow> 'a heap \<Rightarrow> 'a \<Rightarrow> 'a heap \<times> (exn + addr)" where
  "obj_construct A h el =
    (case allocate A (live h) of
       None \<Rightarrow> (h, Inl Bad_alloc)
     | Some new_node \<Rightarrow>
         let h1 = h\<lparr>live := insert new_node (live h)\<rparr> in
         (case construct A el of
            None \<Rightarrow> (h1, Inl Ctor_exception)
          | Some v \<Rightarrow>
              (h1\<lparr>data_f := (data_f h1)(new_node := v),
                  next_f := (next_f h1)(new_node := 0),
                  prev_f := (prev_f h1)(new_node := 0)\<rparr>, Inr new_node)))"

text \<open>\<^verbatim>\<open>obj_destruct\<close>: destroy and deallocate. Deallocating \<^verbatim>\<open>nullptr\<close> gives nothing
  back: \<open>0\<close> is never live.\<close>

definition obj_destruct :: "'a heap \<Rightarrow> addr \<Rightarrow> 'a heap" where
  "obj_destruct h del_node = h\<lparr>live := live h - {del_node}\<rparr>"

text \<open>\<^verbatim>\<open>insert_node\<close>: splice \<open>new_node\<close> in front of \<open>old_node\<close>, four assignments in the
  order of the source.\<close>

definition insert_node :: "'a heap \<Rightarrow> addr \<Rightarrow> addr \<Rightarrow> 'a heap" where
  "insert_node h old_node new_node =
    (let h1 = h\<lparr>next_f := (next_f h)(new_node := old_node)\<rparr>;
         h2 = h1\<lparr>prev_f := (prev_f h1)(new_node := prev_f h1 old_node)\<rparr>;
         h3 = h2\<lparr>next_f := (next_f h2)(prev_f h2 old_node := new_node)\<rparr>
     in h3\<lparr>prev_f := (prev_f h3)(old_node := new_node)\<rparr>)"

section \<open>Construction, iteration, size\<close>

text \<open>\<^verbatim>\<open>List()\<close>: \<^verbatim>\<open>fake_node_(0)\<close>, \<^verbatim>\<open>sz_(0)\<close>, then both links to the sentinel itself.\<close>

definition List_ctor :: "'a::zero heap \<Rightarrow> addr \<Rightarrow> 'a heap" where
  "List_ctor h this =
    (let h1 = h\<lparr>data_f := (data_f h)(this := 0),
                next_f := (next_f h)(this := 0),
                prev_f := (prev_f h)(this := 0),
                sz_f := (sz_f h)(this := 0)\<rparr>;
         h2 = h1\<lparr>next_f := (next_f h1)(this := this)\<rparr>
     in h2\<lparr>prev_f := (prev_f h2)(this := this)\<rparr>)"

definition size_List :: "'a heap \<Rightarrow> addr \<Rightarrow> 64 word" where
  "size_List h this = sz_f h this"

definition empty_List :: "'a heap \<Rightarrow> addr \<Rightarrow> bool" where
  "empty_List h this = (sz_f h this = 0)"

definition begin_List :: "'a heap \<Rightarrow> addr \<Rightarrow> addr" where
  "begin_List h this = next_f h this"

definition end_List :: "'a heap \<Rightarrow> addr \<Rightarrow> addr" where
  "end_List h this = this"

text \<open>What a client sees with \<^verbatim>\<open>for (it = l.begin(); it != l.end(); ++it)\<close>: the values
  \<^verbatim>\<open>*it\<close> in order. A chain that never comes back to the sentinel makes the loop run
  forever, which is the value \<open>None\<close>. \<open>iterate_back\<close> is the same walk with
  \<^verbatim>\<open>--it\<close>, from \<^verbatim>\<open>fake_node_.prev_\<close>.\<close>

partial_function (option) iterate :: "'a heap \<Rightarrow> addr \<Rightarrow> addr \<Rightarrow> 'a list option" where
  "iterate h e it =
    (if it = e then Some []
     else Option.bind (iterate h e (next_f h it)) (\<lambda>xs. Some (data_f h it # xs)))"

declare iterate.simps [code]

partial_function (option) iterate_back :: "'a heap \<Rightarrow> addr \<Rightarrow> addr \<Rightarrow> 'a list option" where
  "iterate_back h e it =
    (if it = e then Some []
     else Option.bind (iterate_back h e (prev_f h it)) (\<lambda>xs. Some (data_f h it # xs)))"

declare iterate_back.simps [code]

definition to_list :: "'a heap \<Rightarrow> addr \<Rightarrow> 'a list option" where
  "to_list h this = iterate h (end_List h this) (begin_List h this)"

definition to_list_back :: "'a heap \<Rightarrow> addr \<Rightarrow> 'a list option" where
  "to_list_back h this = iterate_back h this (prev_f h this)"

section \<open>Basic mutators\<close>

text \<open>\<^verbatim>\<open>clear\<close>: the loop advances \<^verbatim>\<open>fake_node_.next_\<close> and destroys the node it left.\<close>

partial_function (option) clear_loop :: "'a heap \<Rightarrow> addr \<Rightarrow> addr \<Rightarrow> 'a heap option" where
  "clear_loop h this del_node =
    (if del_node = this then Some h
     else let h1 = h\<lparr>next_f := (next_f h)(this := next_f h (next_f h this))\<rparr>;
              h2 = obj_destruct h1 del_node
          in clear_loop h2 this (next_f h2 this))"

declare clear_loop.simps [code]

definition clear :: "'a heap \<Rightarrow> addr \<Rightarrow> 'a heap option" where
  "clear h this =
    Option.bind (clear_loop h this (next_f h this))
      (\<lambda>h1. let h2 = h1\<lparr>prev_f := (prev_f h1)(this := this)\<rparr>
            in Some (h2\<lparr>sz_f := (sz_f h2)(this := 0)\<rparr>))"

text \<open>The three inserting operations share one shape: \<^verbatim>\<open>new_node\<close> starts as
  \<^verbatim>\<open>nullptr\<close>; inside \<^verbatim>\<open>try\<close>, \<^verbatim>\<open>obj_construct\<close>, \<^verbatim>\<open>insert_node\<close>, \<^verbatim>\<open>++sz_\<close>; the handler
  calls \<^verbatim>\<open>obj_destruct(new_node)\<close> and throws \<^verbatim>\<open>std::bad_alloc\<close>. An exception can only
  come from \<^verbatim>\<open>obj_construct\<close>, before \<^verbatim>\<open>new_node\<close> is assigned, so the handler always
  sees \<^verbatim>\<open>nullptr\<close>.\<close>

definition push_front :: "'a node_alloc \<Rightarrow> 'a heap \<Rightarrow> addr \<Rightarrow> 'a \<Rightarrow> 'a heap \<times> (exn + unit)" where
  "push_front A h this el =
    (let new_node = 0 in
     case obj_construct A h el of
       (h1, Inr p) \<Rightarrow>
          let h2 = insert_node h1 (next_f h1 this) p
          in (h2\<lparr>sz_f := (sz_f h2)(this := sz_f h2 this + 1)\<rparr>, Inr ())
     | (h1, Inl e) \<Rightarrow> (obj_destruct h1 new_node, Inl Bad_alloc))"

definition push_back :: "'a node_alloc \<Rightarrow> 'a heap \<Rightarrow> addr \<Rightarrow> 'a \<Rightarrow> 'a heap \<times> (exn + unit)" where
  "push_back A h this el =
    (let new_node = 0 in
     case obj_construct A h el of
       (h1, Inr p) \<Rightarrow>
          let h2 = insert_node h1 this p
          in (h2\<lparr>sz_f := (sz_f h2)(this := sz_f h2 this + 1)\<rparr>, Inr ())
     | (h1, Inl e) \<Rightarrow> (obj_destruct h1 new_node, Inl Bad_alloc))"

text \<open>\<^verbatim>\<open>insert(it, el)\<close> returns an iterator to the new node.\<close>

definition insert_List :: "'a node_alloc \<Rightarrow> 'a heap \<Rightarrow> addr \<Rightarrow> addr \<Rightarrow> 'a \<Rightarrow> 'a heap \<times> (exn + addr)" where
  "insert_List A h this it el =
    (let new_node = 0 in
     case obj_construct A h el of
       (h1, Inr p) \<Rightarrow>
          let h2 = insert_node h1 it p
          in (h2\<lparr>sz_f := (sz_f h2)(this := sz_f h2 this + 1)\<rparr>, Inr p)
     | (h1, Inl e) \<Rightarrow> (obj_destruct h1 new_node, Inl Bad_alloc))"

definition pop_front :: "'a heap \<Rightarrow> addr \<Rightarrow> 'a heap" where
  "pop_front h this =
    (let del_node = next_f h this;
         h1 = h\<lparr>next_f := (next_f h)(this := next_f h del_node)\<rparr>;
         h2 = h1\<lparr>prev_f := (prev_f h1)(next_f h1 del_node := this)\<rparr>;
         h3 = obj_destruct h2 del_node
     in h3\<lparr>sz_f := (sz_f h3)(this := sz_f h3 this - 1)\<rparr>)"

definition pop_back :: "'a heap \<Rightarrow> addr \<Rightarrow> 'a heap" where
  "pop_back h this =
    (let del_node = prev_f h this;
         h1 = h\<lparr>prev_f := (prev_f h)(this := prev_f h del_node)\<rparr>;
         h2 = h1\<lparr>next_f := (next_f h1)(prev_f h1 del_node := this)\<rparr>;
         h3 = obj_destruct h2 del_node
     in h3\<lparr>sz_f := (sz_f h3)(this := sz_f h3 this - 1)\<rparr>)"

text \<open>\<^verbatim>\<open>void erase(iterator& it)\<close>: the iterator is passed by reference and the body never
  assigns to it, and nothing is returned. The second component of the result is the
  caller's iterator after the call.\<close>

definition erase :: "'a heap \<Rightarrow> addr \<Rightarrow> addr \<Rightarrow> 'a heap \<times> addr" where
  "erase h this it =
    (let del_node = it;
         h1 = h\<lparr>next_f := (next_f h)(prev_f h it := next_f h del_node)\<rparr>;
         h2 = h1\<lparr>prev_f := (prev_f h1)(next_f h1 del_node := prev_f h1 del_node)\<rparr>;
         h3 = obj_destruct h2 del_node
     in (h3\<lparr>sz_f := (sz_f h3)(this := sz_f h3 this - 1)\<rparr>, it))"

section \<open>Assignment\<close>

text \<open>\<^verbatim>\<open>operator=(const List&)\<close>: \<^verbatim>\<open>clear()\<close>, then \<^verbatim>\<open>push_back(*it)\<close> for every node of
  the source. There is no test for \<^verbatim>\<open>this == &copy_list\<close>.\<close>

partial_function (option) copy_loop ::
  "'a node_alloc \<Rightarrow> 'a heap \<Rightarrow> addr \<Rightarrow> addr \<Rightarrow> addr \<Rightarrow> ('a heap \<times> (exn + unit)) option" where
  "copy_loop A h this copy_list it =
    (if it = copy_list then Some (h, Inr ())
     else case push_back A h this (data_f h it) of
            (h1, Inl e) \<Rightarrow> Some (h1, Inl e)
          | (h1, Inr u) \<Rightarrow> copy_loop A h1 this copy_list (next_f h1 it))"

declare copy_loop.simps [code]

definition copy_assign ::
  "'a node_alloc \<Rightarrow> 'a heap \<Rightarrow> addr \<Rightarrow> addr \<Rightarrow> ('a heap \<times> (exn + unit)) option" where
  "copy_assign A h this copy_list =
    Option.bind (clear h this)
      (\<lambda>h1. copy_loop A h1 this copy_list (begin_List h1 copy_list))"

definition copy_ctor ::
  "'a::zero node_alloc \<Rightarrow> 'a heap \<Rightarrow> addr \<Rightarrow> addr \<Rightarrow> ('a heap \<times> (exn + unit)) option" where
  "copy_ctor A h this copy_list = copy_assign A (List_ctor h this) this copy_list"

text \<open>\<^verbatim>\<open>operator=(List&&)\<close>: \<^verbatim>\<open>clear()\<close>, take over both links of the source's sentinel,
  point the two end nodes back at the own sentinel, reset the source, move the size.\<close>

definition move_assign :: "'a heap \<Rightarrow> addr \<Rightarrow> addr \<Rightarrow> 'a heap option" where
  "move_assign h this move_list =
    Option.bind (clear h this)
      (\<lambda>h0.
        let h1 = h0\<lparr>next_f := (next_f h0)(this := next_f h0 move_list)\<rparr>;
            h2 = h1\<lparr>prev_f := (prev_f h1)(this := prev_f h1 move_list)\<rparr>;
            h3 = h2\<lparr>prev_f := (prev_f h2)(next_f h2 this := this)\<rparr>;
            h4 = h3\<lparr>next_f := (next_f h3)(prev_f h3 this := this)\<rparr>;
            h5 = h4\<lparr>next_f := (next_f h4)(move_list := move_list)\<rparr>;
            h6 = h5\<lparr>prev_f := (prev_f h5)(move_list := move_list)\<rparr>;
            h7 = h6\<lparr>sz_f := (sz_f h6)(this := sz_f h6 move_list)\<rparr>
        in Some (h7\<lparr>sz_f := (sz_f h7)(move_list := 0)\<rparr>))"

definition move_ctor :: "'a::zero heap \<Rightarrow> addr \<Rightarrow> addr \<Rightarrow> 'a heap option" where
  "move_ctor h this move_list = move_assign (List_ctor h this) this move_list"

section \<open>Merge, swap, reverse\<close>

text \<open>\<^verbatim>\<open>merge(List& other)\<close>: for every node of \<open>other\<close>, construct a copy and splice it
  in front of \<^verbatim>\<open>end()\<close>. The body has no \<^verbatim>\<open>++sz_\<close>. \<^verbatim>\<open>new_node\<close> is declared outside the
  loop, so the handler destroys the node of the previous round.\<close>

partial_function (option) merge_loop ::
  "'a node_alloc \<Rightarrow> 'a heap \<Rightarrow> addr \<Rightarrow> addr \<Rightarrow> addr \<Rightarrow> addr \<Rightarrow> ('a heap \<times> (exn + unit)) option" where
  "merge_loop A h this other new_node it =
    (if it = end_List h other then Some (h, Inr ())
     else case obj_construct A h (data_f h it) of
            (h1, Inr p) \<Rightarrow>
              (let h2 = insert_node h1 (end_List h1 this) p
               in merge_loop A h2 this other p (next_f h2 it))
          | (h1, Inl e) \<Rightarrow> Some (obj_destruct h1 new_node, Inl Bad_alloc))"

declare merge_loop.simps [code]

definition merge :: "'a node_alloc \<Rightarrow> 'a heap \<Rightarrow> addr \<Rightarrow> addr \<Rightarrow> ('a heap \<times> (exn + unit)) option" where
  "merge A h this other =
    (if this = other then Some (h, Inr ())
     else merge_loop A h this other 0 (begin_List h other))"

text \<open>\<^verbatim>\<open>merge(List&& other)\<close>: four boundary pointers, then the source is reset.\<close>

definition merge_move :: "'a heap \<Rightarrow> addr \<Rightarrow> addr \<Rightarrow> 'a heap" where
  "merge_move h this other =
    (if this = other then h
     else
       let h1 = h\<lparr>next_f := (next_f h)(prev_f h this := next_f h other)\<rparr>;
           h2 = h1\<lparr>prev_f := (prev_f h1)(next_f h1 other := prev_f h1 this)\<rparr>;
           h3 = h2\<lparr>prev_f := (prev_f h2)(this := prev_f h2 other)\<rparr>;
           h4 = h3\<lparr>next_f := (next_f h3)(prev_f h3 this := this)\<rparr>;
           h5 = h4\<lparr>next_f := (next_f h4)(other := other)\<rparr>;
           h6 = h5\<lparr>prev_f := (prev_f h5)(other := other)\<rparr>;
           h7 = h6\<lparr>sz_f := (sz_f h6)(this := sz_f h6 this + sz_f h6 other)\<rparr>
       in h7\<lparr>sz_f := (sz_f h7)(other := 0)\<rparr>)"

text \<open>\<^verbatim>\<open>swap\<close>: three \<^verbatim>\<open>std::swap\<close> calls on the sentinels' links and the sizes. The
  nodes next to the sentinels are not touched.\<close>

definition swap :: "'a heap \<Rightarrow> addr \<Rightarrow> addr \<Rightarrow> 'a heap" where
  "swap h this other =
    (if this = other then h
     else
       let h1 = h\<lparr>next_f := (next_f h)(this := next_f h other, other := next_f h this)\<rparr>;
           h2 = h1\<lparr>prev_f := (prev_f h1)(this := prev_f h1 other, other := prev_f h1 this)\<rparr>
       in h2\<lparr>sz_f := (sz_f h2)(this := sz_f h2 other, other := sz_f h2 this)\<rparr>)"

text \<open>\<^verbatim>\<open>reverse\<close>: swap the two links of every node, stepping with \<^verbatim>\<open>--it\<close> (after the
  swap \<^verbatim>\<open>prev_\<close> is the old \<^verbatim>\<open>next_\<close>), then of the sentinel.\<close>

partial_function (option) reverse_loop :: "'a heap \<Rightarrow> addr \<Rightarrow> addr \<Rightarrow> 'a heap option" where
  "reverse_loop h this it =
    (if it = end_List h this then Some h
     else let h1 = h\<lparr>next_f := (next_f h)(it := prev_f h it),
                      prev_f := (prev_f h)(it := next_f h it)\<rparr>
          in reverse_loop h1 this (prev_f h1 it))"

declare reverse_loop.simps [code]

definition reverse :: "'a heap \<Rightarrow> addr \<Rightarrow> 'a heap option" where
  "reverse h this =
    Option.bind (reverse_loop h this (begin_List h this))
      (\<lambda>h1. let e = end_List h1 this
            in Some (h1\<lparr>next_f := (next_f h1)(e := prev_f h1 e),
                        prev_f := (prev_f h1)(e := next_f h1 e)\<rparr>))"

section \<open>Sort\<close>

text \<open>The two comparison lambdas selected by \<^verbatim>\<open>ascending\<close>. They call the element
  type's own \<^verbatim>\<open><\<close>, \<^verbatim>\<open>>\<close>, \<^verbatim>\<open><=\<close>, \<^verbatim>\<open>>=\<close>; the model asks nothing of them but that
  they exist (\<open>a > b\<close> is read \<open>b < a\<close>). What the theorems need of the order is stated
  there.\<close>

definition lamb :: "bool \<Rightarrow> 'a::ord \<Rightarrow> 'a \<Rightarrow> bool" where
  "lamb ascending a b = (if ascending then a < b else a > b)"

definition lamb_t :: "bool \<Rightarrow> 'a::ord \<Rightarrow> 'a \<Rightarrow> bool" where
  "lamb_t ascending a b = (if ascending then a \<le> b else a \<ge> b)"

text \<open>The inner loop walks \<^verbatim>\<open>it_j\<close> backwards from the node before \<^verbatim>\<open>it_i\<close>. At the first
  position that passes the test it unlinks \<^verbatim>\<open>it_i\<close>, splices it in front of \<^verbatim>\<open>it_j\<close>,
  sets \<^verbatim>\<open>it_i\<close> to the node that followed it and clears \<^verbatim>\<open>flag\<close>. The result is the
  store, the new \<^verbatim>\<open>it_i\<close> and \<^verbatim>\<open>flag\<close>.\<close>

partial_function (option) sort_inner ::
  "'a::ord heap \<Rightarrow> addr \<Rightarrow> bool \<Rightarrow> addr \<Rightarrow> addr \<Rightarrow> ('a heap \<times> addr \<times> bool) option" where
  "sort_inner h this ascending it_i it_j =
    (if it_j = end_List h this then Some (h, it_i, True)
     else
       let it_next = prev_f h it_j in
       if lamb ascending (data_f h it_i) (data_f h it_j)
          \<and> (it_next = end_List h this \<or> lamb_t ascending (data_f h it_next) (data_f h it_i))
       then
         let it_s = next_f h it_i;
             h1 = h\<lparr>prev_f := (prev_f h)(next_f h it_i := prev_f h it_i)\<rparr>;
             h2 = h1\<lparr>next_f := (next_f h1)(prev_f h1 it_i := next_f h1 it_i)\<rparr>;
             h3 = insert_node h2 it_j it_i
         in Some (h3, it_s, False)
       else sort_inner h this ascending it_i (prev_f h it_j))"

declare sort_inner.simps [code]

partial_function (option) sort_outer ::
  "'a::ord heap \<Rightarrow> addr \<Rightarrow> bool \<Rightarrow> addr \<Rightarrow> 'a heap option" where
  "sort_outer h this ascending it_i =
    (if it_i = end_List h this then Some h
     else Option.bind (sort_inner h this ascending it_i (prev_f h it_i))
       (\<lambda>(h1, it_i1, flag).
           sort_outer h1 this ascending (if flag then next_f h1 it_i1 else it_i1)))"

declare sort_outer.simps [code]

definition sort_List :: "'a::ord heap \<Rightarrow> addr \<Rightarrow> bool \<Rightarrow> 'a heap option" where
  "sort_List h this ascending =
    (if sz_f h this < 2 then Some h
     else sort_outer h this ascending (next_f h (begin_List h this)))"

section \<open>The representation invariant\<close>

text \<open>\<open>chain h p\<close>: along the address path \<open>p\<close>, every node's \<^verbatim>\<open>next_\<close> is its successor
  and every node's \<^verbatim>\<open>prev_\<close> is its predecessor. \<open>List_inv h this ns\<close>: the list at
  \<open>this\<close> consists of exactly the real nodes \<open>ns\<close>, in this order: the path from the
  sentinel through \<open>ns\<close> back to the sentinel is a chain of distinct addresses, the
  nodes are live, and \<^verbatim>\<open>sz_\<close> is their number.\<close>

definition chain :: "'a heap \<Rightarrow> addr list \<Rightarrow> bool" where
  "chain h p = successively (\<lambda>a b. next_f h a = b \<and> prev_f h b = a) p"

definition List_inv :: "'a heap \<Rightarrow> addr \<Rightarrow> addr list \<Rightarrow> bool" where
  "List_inv h this ns =
    (distinct (this # ns) \<and> chain h (this # ns @ [this])
     \<and> unat (sz_f h this) = length ns \<and> set ns \<subseteq> live h)"

section \<open>Specification-level functions\<close>

text \<open>The relinking step of the inner loop of \<^verbatim>\<open>sort\<close>, named: unlink \<open>it_i\<close>, then
  \<^verbatim>\<open>insert_node(it_j.node_, it_i.node_)\<close>.\<close>

definition relink :: "'a heap \<Rightarrow> addr \<Rightarrow> addr \<Rightarrow> 'a heap" where
  "relink h it_i it_j =
     (let h1 = h\<lparr>prev_f := (prev_f h)(next_f h it_i := prev_f h it_i)\<rparr>;
          h2 = h1\<lparr>next_f := (next_f h1)(prev_f h1 it_i := next_f h1 it_i)\<rparr>
      in insert_node h2 it_j it_i)"

text \<open>The same sort on the list of node addresses, with key \<open>k\<close> (the nodes' data).
  \<open>ins_scan k asc i rp B\<close> is the inner loop: \<open>rp\<close> are the nodes still to visit, the
  nearest first, and \<open>B\<close> the nodes already passed. \<open>ins_all\<close> is the outer loop over
  the nodes after the sorted prefix \<open>ps\<close>.\<close>

fun ins_scan :: "(addr \<Rightarrow> 'a::ord) \<Rightarrow> bool \<Rightarrow> addr \<Rightarrow> addr list \<Rightarrow> addr list \<Rightarrow> addr list option" where
  "ins_scan k asc i [] B = None"
| "ins_scan k asc i (j # rp) B =
    (if lamb asc (k i) (k j) \<and> (rp = [] \<or> lamb_t asc (k (hd rp)) (k i))
     then Some (rev rp @ i # j # B)
     else ins_scan k asc i rp (j # B))"

fun ins_all :: "(addr \<Rightarrow> 'a::ord) \<Rightarrow> bool \<Rightarrow> addr list \<Rightarrow> addr list \<Rightarrow> addr list" where
  "ins_all k asc ps [] = ps"
| "ins_all k asc ps (i # rest) =
    (case ins_scan k asc i (rev ps) [] of
       None \<Rightarrow> ins_all k asc (ps @ [i]) rest
     | Some ps' \<Rightarrow> ins_all k asc ps' rest)"

definition isort :: "(addr \<Rightarrow> 'a::ord) \<Rightarrow> bool \<Rightarrow> addr list \<Rightarrow> addr list" where
  "isort k asc ns = (case ns of [] \<Rightarrow> [] | a # rest \<Rightarrow> ins_all k asc [a] rest)"

text \<open>\<open>ordered k asc ns\<close>: the keys along \<open>ns\<close> never decrease (\<open>asc\<close>) or never
  increase.\<close>

definition ordered :: "(addr \<Rightarrow> 'a::ord) \<Rightarrow> bool \<Rightarrow> addr list \<Rightarrow> bool" where
  "ordered k asc ns = sorted_wrt (\<lambda>a b. lamb_t asc (k a) (k b)) ns"

text \<open>\<open>flip S h\<close>: the store \<open>h\<close> with \<^verbatim>\<open>next_\<close> and \<^verbatim>\<open>prev_\<close> exchanged at every address
  of \<open>S\<close>; what the loop of \<^verbatim>\<open>reverse\<close> has done to the nodes it has passed.\<close>

definition flip :: "addr set \<Rightarrow> 'a heap \<Rightarrow> 'a heap" where
  "flip S h = h\<lparr>next_f := (\<lambda>x. if x \<in> S then prev_f h x else next_f h x),
               prev_f := (\<lambda>x. if x \<in> S then next_f h x else prev_f h x)\<rparr>"

section \<open>Client programs used as examples\<close>

text \<open>A first-fit allocator over a fixed pool of node addresses: it fails when every
  slot is live. \<open>two_lists xs ys\<close> is the store after
  \<^verbatim>\<open>List<T> a, b;\<close> followed by \<^verbatim>\<open>a.push_back(x)\<close> for every \<open>x\<close> of \<open>xs\<close> and
  \<^verbatim>\<open>b.push_back(y)\<close> for every \<open>y\<close> of \<open>ys\<close>, with \<^verbatim>\<open>a\<close> at address 1 and \<^verbatim>\<open>b\<close> at
  address 2; \<open>client_lists\<close> is \<open>two_lists\<close> for \<^verbatim>\<open>List<int>\<close>.\<close>

definition pool_alloc :: "addr list \<Rightarrow> 'a node_alloc" where
  "pool_alloc slots = \<lparr>allocate = (\<lambda>L. find (\<lambda>p. p \<notin> L) slots), construct = Some\<rparr>"

definition pool :: "'a node_alloc" where
  "pool = pool_alloc [10, 11, 12, 13, 14, 15]"

definition heap0 :: "'a::zero heap" where
  "heap0 = \<lparr>data_f = (\<lambda>_. 0), next_f = (\<lambda>_. 0), prev_f = (\<lambda>_. 0), sz_f = (\<lambda>_. 0), live = {}\<rparr>"

fun push_back_all :: "'a node_alloc \<Rightarrow> 'a heap \<Rightarrow> addr \<Rightarrow> 'a list \<Rightarrow> 'a heap" where
  "push_back_all A h this [] = h"
| "push_back_all A h this (x # xs) = push_back_all A (fst (push_back A h this x)) this xs"

definition two_lists :: "'a::zero list \<Rightarrow> 'a list \<Rightarrow> 'a heap" where
  "two_lists xs ys =
     push_back_all pool (push_back_all pool (List_ctor (List_ctor heap0 1) 2) 1 xs) 2 ys"

definition client_lists :: "int list \<Rightarrow> int list \<Rightarrow> int heap" where
  "client_lists = two_lists"

text \<open>An element type whose comparison looks at one field only, so that two elements
  can compare equal and still differ:
  \<^verbatim>\<open>struct item { int key; int tag; item(int k) : key(k), tag(0) {}
    bool operator<(const item& o) const { return key < o.key; }
    bool operator<=(const item& o) const { return key <= o.key; } ... };\<close>\<close>

datatype item = Item (key: int) (tag: int)

instantiation item :: "{zero, preorder}"
begin

definition zero_item :: item where
  "zero_item = Item 0 0"

definition less_eq_item :: "item \<Rightarrow> item \<Rightarrow> bool" where
  "less_eq_item a b = (key a \<le> key b)"

definition less_item :: "item \<Rightarrow> item \<Rightarrow> bool" where
  "less_item a b = (key a < key b)"

instance
  by standard (auto simp: less_eq_item_def less_item_def)

end

definition item_lists :: "item list \<Rightarrow> item list \<Rightarrow> item heap" where
  "item_lists = two_lists"

section \<open>Chains under pointer updates\<close>

lemma chain_Nil [simp]: "chain h []"
  by (simp add: chain_def)

lemma chain_single [simp]: "chain h [a]"
  by (simp add: chain_def)

lemma chain_Cons2 [simp]:
  "chain h (a # b # p) = (next_f h a = b \<and> prev_f h b = a \<and> chain h (b # p))"
  by (simp add: chain_def)

lemma chain_append:
  "chain h (p @ a # q) = (chain h (p @ [a]) \<and> chain h (a # q))"
  by (induction p rule: induct_list012) auto

lemma chain_irrelevant [simp]:
  "chain (h\<lparr>sz_f := s\<rparr>) p = chain h p" "chain (h\<lparr>live := l\<rparr>) p = chain h p"
  "chain (h\<lparr>data_f := d\<rparr>) p = chain h p"
  by (simp_all add: chain_def)

lemma chain_snoc2:
  "chain h (p @ [a, b]) = (chain h (p @ [a]) \<and> next_f h a = b \<and> prev_f h b = a)"
  using chain_append [of h p a "[b]"] by simp

lemma iterate_chain:
  "this \<notin> set ns \<Longrightarrow> chain h (ns @ [this])
    \<Longrightarrow> iterate h this (hd (ns @ [this])) = Some (map (data_f h) ns)"
proof (induction ns)
  case Nil
  show ?case by (subst iterate.simps) simp
next
  case (Cons a ns)
  from Cons.prems have nx: "next_f h a = hd (ns @ [this])" and ch: "chain h (ns @ [this])"
    by (cases ns; simp)+
  from Cons.prems have "a \<noteq> this" "this \<notin> set ns" by auto
  with Cons.IH ch nx show ?case by (subst iterate.simps) simp
qed

lemma iterate_back_chain:
  "this \<notin> set ns \<Longrightarrow> chain h (this # ns)
    \<Longrightarrow> iterate_back h this (last (this # ns)) = Some (rev (map (data_f h) ns))"
proof (induction ns rule: rev_induct)
  case Nil
  show ?case by (subst iterate_back.simps) simp
next
  case (snoc a ns)
  from snoc.prems have ch: "chain h (this # ns)" and pv: "prev_f h a = last (this # ns)"
    using chain_snoc2 [of h "butlast (this # ns)" "last (this # ns)" a]
    by (cases ns rule: rev_cases; simp add: chain_append[of h _ _ "[a]"])+
  from snoc.prems have "a \<noteq> this" "this \<notin> set ns" by auto
  with snoc.IH ch pv show ?case by (subst iterate_back.simps) simp
qed

lemma List_inv_to_list:
  assumes "List_inv h this ns"
  shows "to_list h this = Some (map (data_f h) ns)"
proof -
  from assms have d: "this \<notin> set ns" and c: "chain h (this # ns @ [this])"
    by (auto simp: List_inv_def)
  from c have "next_f h this = hd (ns @ [this])" "chain h (ns @ [this])"
    by (cases ns; simp)+
  with iterate_chain [OF d] show ?thesis
    by (simp add: to_list_def begin_List_def end_List_def)
qed

lemma List_inv_to_list_back:
  assumes "List_inv h this ns"
  shows "to_list_back h this = Some (rev (map (data_f h) ns))"
proof -
  from assms have d: "this \<notin> set ns" and c: "chain h (this # ns @ [this])"
    by (auto simp: List_inv_def)
  from c have p: "prev_f h this = last (this # ns)" and c': "chain h (this # ns)"
    using chain_snoc2 [of h "butlast (this # ns)" "last (this # ns)" this]
    by (cases ns rule: rev_cases; simp add: chain_append[of h _ _ "[this]"])+
  show ?thesis unfolding to_list_back_def p by (rule iterate_back_chain [OF d c'])
qed

lemma chain_app2:
  "P \<noteq> [] \<Longrightarrow> Q \<noteq> [] \<Longrightarrow>
   chain h (P @ Q) = (chain h P \<and> chain h Q \<and> next_f h (last P) = hd Q \<and> prev_f h (hd Q) = last P)"
  by (auto simp: chain_def successively_append_iff)

lemma chain_eqI:
  "(\<And>x. x \<in> set (butlast p) \<Longrightarrow> next_f h' x = next_f h x)
   \<Longrightarrow> (\<And>x. x \<in> set (tl p) \<Longrightarrow> prev_f h' x = prev_f h x)
   \<Longrightarrow> chain h' p = chain h p"
  by (induction p rule: induct_list012) auto

lemma last_notin_butlast: "distinct p \<Longrightarrow> p \<noteq> [] \<Longrightarrow> last p \<notin> set (butlast p)"
  by (induction p rule: rev_induct) auto

lemma hd_notin_tl: "distinct p \<Longrightarrow> p \<noteq> [] \<Longrightarrow> hd p \<notin> set (tl p)"
  by (cases p) auto

lemma chain_rotate: "chain h (a # X @ b # Y @ [a]) = chain h (b # Y @ a # X @ [b])"
  using chain_append [of h "a # X" b "Y @ [a]"] chain_append [of h "b # Y" a "X @ [b]"]
  by auto

lemma relink_cycle:
  assumes ne: "W \<noteq> []" "S \<noteq> []"
    and d: "distinct (i # W @ S)"
    and c: "chain h (i # W @ S @ [i])"
  shows "chain (relink h i (hd S)) (i # S @ W @ [i])"
proof -
  from c ne have cW: "chain h W" and cS: "chain h S"
    and j1: "next_f h i = hd W" "prev_f h (hd W) = i"
    and j2: "next_f h (last W) = hd S" "prev_f h (hd S) = last W"
    and j3: "next_f h (last S) = i" "prev_f h i = last S"
    using chain_app2 [of "[i]" "W @ S @ [i]" h] chain_app2 [of W "S @ [i]" h]
      chain_app2 [of S "[i]" h]
    by auto
  have mem: "hd W \<in> set W" "last W \<in> set W" "hd S \<in> set S" "last S \<in> set S"
    using ne by auto
  from d mem have neq: "hd W \<noteq> i" "last W \<noteq> i" "hd S \<noteq> i" "last S \<noteq> i"
    "hd W \<noteq> hd S" "hd W \<noteq> last S" "last W \<noteq> hd S" "last W \<noteq> last S"
    by auto
  let ?h = "relink h i (hd S)"
  have nx: "next_f ?h = (next_f h)(last S := hd W, i := hd S, last W := i)"
    and pv: "prev_f ?h = (prev_f h)(hd W := last S, i := last W, hd S := i)"
    using j1 j2 j3 neq by (auto simp: relink_def insert_node_def Let_def fun_eq_iff)
  have cW': "chain ?h W"
  proof (rule chain_eqI [THEN iffD2, OF _ _ cW])
    fix x assume "x \<in> set (butlast W)"
    then have "x \<noteq> last W" "x \<in> set W"
      using last_notin_butlast [of W] d ne by (auto dest: in_set_butlastD)
    with d mem show "next_f ?h x = next_f h x" by (auto simp: nx)
  next
    fix x assume "x \<in> set (tl W)"
    then have "x \<noteq> hd W" "x \<in> set W"
      using hd_notin_tl [of W] d ne by (auto dest: list.set_sel(2))
    with d mem show "prev_f ?h x = prev_f h x" by (auto simp: pv)
  qed
  have cS': "chain ?h S"
  proof (rule chain_eqI [THEN iffD2, OF _ _ cS])
    fix x assume "x \<in> set (butlast S)"
    then have "x \<noteq> last S" "x \<in> set S"
      using last_notin_butlast [of S] d ne by (auto dest: in_set_butlastD)
    with d mem show "next_f ?h x = next_f h x" by (auto simp: nx)
  next
    fix x assume "x \<in> set (tl S)"
    then have "x \<noteq> hd S" "x \<in> set S"
      using hd_notin_tl [of S] d ne by (auto dest: list.set_sel(2))
    with d mem show "prev_f ?h x = prev_f h x" by (auto simp: pv)
  qed
  show ?thesis
    using chain_app2 [of "[i]" "S @ W @ [i]" ?h] chain_app2 [of S "W @ [i]" ?h]
      chain_app2 [of W "[i]" ?h] ne cW' cS' neq
    by (simp add: nx pv)
qed

section \<open>The sort loops refine the insertion sort on node lists\<close>

lemma List_inv_mid:
  assumes "List_inv h this (A @ x # B)"
  shows "prev_f h x = last (this # A)" "next_f h x = hd (B @ [this])" "x \<noteq> this"
proof -
  from assms have c: "chain h ((this # A) @ x # B @ [this])" and d: "distinct (this # A @ x # B)"
    by (auto simp: List_inv_def)
  from c have "chain h ((this # A) @ [x])" "chain h (x # B @ [this])"
    using chain_append [of h "this # A" x "B @ [this]"] by auto
  then show "prev_f h x = last (this # A)" "next_f h x = hd (B @ [this])"
    using chain_app2 [of "this # A" "[x]" h] chain_app2 [of "[x]" "B @ [this]" h] by auto
  from d show "x \<noteq> this" by auto
qed

lemma last_Cons_rev: "last (this # rev rp) = hd (rp @ [this])"
  by (cases rp) auto

lemma relink_fields [simp]:
  "data_f (relink h i j) = data_f h" "live (relink h i j) = live h" "sz_f (relink h i j) = sz_f h"
  by (simp_all add: relink_def insert_node_def Let_def)

lemma List_inv_relink:
  assumes inv: "List_inv h this (A @ j # B @ i # R)"
  shows "List_inv (relink h i j) this (A @ i # j # B @ R)"
proof -
  from inv have d: "distinct (this # A @ j # B @ i # R)"
    and c: "chain h (this # (A @ j # B) @ i # R @ [this])"
    and s: "unat (sz_f h this) = length (A @ j # B @ i # R)" "set (A @ j # B @ i # R) \<subseteq> live h"
    by (auto simp: List_inv_def)
  from c have "chain h (i # (R @ this # A) @ (j # B) @ [i])"
    using chain_rotate [of h this "A @ j # B" i R] by simp
  moreover from d have "distinct (i # (R @ this # A) @ (j # B))" by auto
  ultimately have "chain (relink h i (hd (j # B))) (i # (j # B) @ (R @ this # A) @ [i])"
    by (intro relink_cycle) auto
  then have "chain (relink h i j) (this # (A @ i # j # B @ R) @ [this])"
    using chain_rotate [of "relink h i j" i "j # B @ R" this A] by simp
  with d s show ?thesis by (auto simp: List_inv_def)
qed

lemma sort_inner_refine:
  assumes "List_inv h this (rev rp @ B @ i # R)"
  shows "case ins_scan (data_f h) asc i rp B of
           None \<Rightarrow> sort_inner h this asc i (hd (rp @ [this])) = Some (h, i, True)
         | Some ps' \<Rightarrow> (\<exists>h'. sort_inner h this asc i (hd (rp @ [this])) = Some (h', hd (R @ [this]), False)
               \<and> List_inv h' this (ps' @ R) \<and> data_f h' = data_f h \<and> live h' = live h \<and> sz_f h' = sz_f h)"
  using assms
proof (induction rp arbitrary: B)
  case Nil
  show ?case by (subst sort_inner.simps) (simp add: end_List_def)
next
  case (Cons j rp)
  from Cons.prems have inv: "List_inv h this (rev rp @ j # B @ i # R)" by simp
  note mj = List_inv_mid [OF inv]
  from inv have inv': "List_inv h this ((rev rp @ j # B) @ i # R)" by simp
  note mi = List_inv_mid [OF inv']
  from inv have nth: "rp \<noteq> [] \<Longrightarrow> hd rp \<noteq> this" by (cases rp) (auto simp: List_inv_def)
  have pj: "prev_f h j = hd (rp @ [this])" using mj(1) by (simp only: last_Cons_rev)
  have nx: "prev_f h j = this \<longleftrightarrow> rp = []" using pj nth by (cases rp) auto
  have dn: "rp \<noteq> [] \<Longrightarrow> data_f h (prev_f h j) = data_f h (hd rp)" using pj by (cases rp) auto
  show ?case
  proof (cases "lamb asc (data_f h i) (data_f h j)
      \<and> (rp = [] \<or> lamb_t asc (data_f h (hd rp)) (data_f h i))")
    case True
    have "sort_inner h this asc i j = Some (relink h i j, hd (R @ [this]), False)"
      using True mj(3) nx dn mi(2)
      by (subst sort_inner.simps) (auto simp: end_List_def relink_def Let_def)
    moreover have "List_inv (relink h i j) this ((rev rp @ i # j # B) @ R)"
      using List_inv_relink [OF inv] by simp
    ultimately show ?thesis using True by simp
  next
    case False
    have s: "sort_inner h this asc i (hd ((j # rp) @ [this]))
        = sort_inner h this asc i (hd (rp @ [this]))"
      using False mj(3) nx dn pj
      by (subst sort_inner.simps) (auto simp: end_List_def Let_def)
    have e: "ins_scan (data_f h) asc i (j # rp) B = ins_scan (data_f h) asc i rp (j # B)"
      using False by auto
    from Cons.IH [of "j # B"] inv show ?thesis unfolding e s by simp
  qed
qed

lemma sort_outer_refine:
  assumes "List_inv h this (ps @ rest)"
  shows "\<exists>h'. sort_outer h this asc (hd (rest @ [this])) = Some h'
           \<and> List_inv h' this (ins_all (data_f h) asc ps rest)
           \<and> data_f h' = data_f h \<and> live h' = live h \<and> sz_f h' = sz_f h"
  using assms
proof (induction rest arbitrary: h ps)
  case Nil
  then show ?case by (subst sort_outer.simps) (simp add: end_List_def)
next
  case (Cons i R)
  note inv = Cons.prems
  note mi = List_inv_mid [OF inv]
  have pi: "prev_f h i = hd (rev ps @ [this])" using mi(1) last_Cons_rev [of this "rev ps"] by simp
  from inv have inv0: "List_inv h this (rev (rev ps) @ [] @ i # R)" by simp
  note r = sort_inner_refine [OF inv0, of asc]
  show ?case
  proof (cases "ins_scan (data_f h) asc i (rev ps) []")
    case None
    with r have si: "sort_inner h this asc i (prev_f h i) = Some (h, i, True)" by (simp add: pi)
    from inv have "List_inv h this ((ps @ [i]) @ R)" by simp
    from Cons.IH [OF this] obtain h' where
      "sort_outer h this asc (hd (R @ [this])) = Some h'"
      "List_inv h' this (ins_all (data_f h) asc (ps @ [i]) R)"
      "data_f h' = data_f h" "live h' = live h" "sz_f h' = sz_f h" by blast
    with si mi None show ?thesis
      by (subst sort_outer.simps) (simp add: end_List_def)
  next
    case (Some ps')
    with r obtain h1 where si: "sort_inner h this asc i (prev_f h i) = Some (h1, hd (R @ [this]), False)"
      and h1: "List_inv h1 this (ps' @ R)" "data_f h1 = data_f h" "live h1 = live h" "sz_f h1 = sz_f h"
      by (auto simp: pi)
    from Cons.IH [OF h1(1)] obtain h' where
      "sort_outer h1 this asc (hd (R @ [this])) = Some h'"
      "List_inv h' this (ins_all (data_f h1) asc ps' R)"
      "data_f h' = data_f h1" "live h' = live h1" "sz_f h' = sz_f h1" by blast
    with si mi Some h1 show ?thesis
      by (subst sort_outer.simps) (simp add: end_List_def)
  qed
qed

lemma sort_List_refine:
  assumes inv: "List_inv h this ns"
  shows "\<exists>h'. sort_List h this asc = Some h'
           \<and> List_inv h' this (isort (data_f h) asc ns)
           \<and> data_f h' = data_f h \<and> live h' = live h \<and> sz_f h' = sz_f h
           \<and> (length ns < 2 \<longrightarrow> h' = h)"
proof (cases "length ns < 2")
  case True
  with inv have "sz_f h this < 2"
    by (simp add: List_inv_def word_less_nat_alt)
  moreover from True have "isort (data_f h) asc ns = ns"
    by (cases ns) (auto simp: isort_def)
  ultimately show ?thesis using inv by (simp add: sort_List_def)
next
  case False
  then obtain a b R where ns: "ns = a # b # R"
    by (cases ns; cases "tl ns") auto
  with inv have sz: "\<not> sz_f h this < 2"
    by (simp add: List_inv_def word_less_nat_alt)
  from inv ns have c: "chain h (this # a # b # R @ [this])" by (simp add: List_inv_def)
  then have st: "next_f h (next_f h this) = hd ((b # R) @ [this])" by simp
  from inv ns have "List_inv h this ([a] @ b # R)" by simp
  from sort_outer_refine [OF this, of asc] st sz ns False show ?thesis
    by (simp add: sort_List_def begin_List_def isort_def)
qed

section \<open>The insertion sort orders, permutes and is stable\<close>

text \<open>The order is a total preorder: \<open>\<le>\<close> is reflexive and transitive, \<open><\<close> is its
  strict part (class \<open>preorder\<close>), and any two elements are comparable (the assumption
  \<open>\<forall>x y. x \<le> y \<or> y \<le> x\<close> below). Two elements compare equal when each is \<open>\<le>\<close> the
  other; in a linear order that is equality.\<close>

lemma lamb_not:
  fixes a b :: "'a::preorder"
  assumes "\<forall>x y::'a. x \<le> y \<or> y \<le> x"
  shows "lamb asc a b = (\<not> lamb_t asc b a)"
  using assms by (auto simp: lamb_def lamb_t_def less_le_not_le)

lemma lamb_t_trans:
  fixes a b c :: "'a::preorder"
  shows "lamb_t asc a b \<Longrightarrow> lamb_t asc b c \<Longrightarrow> lamb_t asc a c"
  by (auto simp: lamb_t_def split: if_splits intro: order_trans)

lemma lamb_not_equiv:
  fixes a c v :: "'a::preorder"
  assumes "lamb asc a c" "a \<le> v" "v \<le> a"
  shows "\<not> (c \<le> v \<and> v \<le> c)"
proof
  assume cv: "c \<le> v \<and> v \<le> c"
  with assms(2,3) have "c \<le> a" "a \<le> c" by (auto intro: order_trans)
  with assms(1) show False by (auto simp: lamb_def less_le_not_le split: if_splits)
qed

lemma lamb_lamb_t:
  fixes a b :: "'a::preorder"
  shows "lamb asc a b \<Longrightarrow> lamb_t asc a b"
  by (auto simp: lamb_def lamb_t_def less_le_not_le split: if_splits)

lemma ins_scan_none:
  "\<forall>x\<in>set rp. \<not> lamb asc (k i) (k x) \<Longrightarrow> ins_scan k asc i rp B = None"
  by (induction rp arbitrary: B) auto

lemma ins_scan_mset:
  "ins_scan k asc i rp B = Some ps' \<Longrightarrow> mset ps' = add_mset i (mset rp + mset B)"
  by (induction rp arbitrary: B) (auto split: if_splits)

lemma ins_scan_sorted:
  fixes k :: "addr \<Rightarrow> 'a::preorder"
  assumes tot: "\<forall>x y::'a. x \<le> y \<or> y \<le> x"
    and "ordered k asc (rev rp @ B)" "\<forall>b\<in>set B. lamb asc (k i) (k b)"
    "B \<noteq> [] \<longrightarrow> rp \<noteq> [] \<and> lamb asc (k i) (k (hd rp))"
  shows "case ins_scan k asc i rp B of
           None \<Rightarrow> B = [] \<and> (\<forall>x\<in>set rp. lamb_t asc (k x) (k i))
         | Some ps' \<Rightarrow> (\<exists>A C. rev rp @ B = A @ C \<and> ps' = A @ i # C
               \<and> (\<forall>a\<in>set A. lamb_t asc (k a) (k i)) \<and> (\<forall>c\<in>set C. lamb asc (k i) (k c)))"
  using assms(2-)
proof (induction rp arbitrary: B)
  case Nil
  then show ?case by simp
next
  case (Cons j rp)
  note ln = lamb_not [OF tot]
  from Cons.prems(1) have below: "\<forall>x\<in>set rp. lamb_t asc (k x) (k j)"
    by (auto simp: ordered_def sorted_wrt_append)
  show ?case
  proof (cases "lamb asc (k i) (k j)")
    case False
    with Cons.prems(3) have B: "B = []" by auto
    from False have ji: "lamb_t asc (k j) (k i)" by (simp add: ln)
    with below have all: "\<forall>x\<in>set (j # rp). lamb_t asc (k x) (k i)"
      by (auto intro: lamb_t_trans)
    then have "\<forall>x\<in>set (j # rp). \<not> lamb asc (k i) (k x)" by (simp add: ln)
    from ins_scan_none [OF this] B all show ?thesis by simp
  next
    case True
    show ?thesis
    proof (cases "rp = [] \<or> lamb_t asc (k (hd rp)) (k i)")
      case stop: True
      have "\<forall>a\<in>set rp. lamb_t asc (k a) (k i)"
      proof
        fix a assume a: "a \<in> set rp"
        then have ne: "rp \<noteq> []" by auto
        with stop have h: "lamb_t asc (k (hd rp)) (k i)" by simp
        from Cons.prems(1) ne a have "a = hd rp \<or> lamb_t asc (k a) (k (hd rp))"
          by (cases rp) (auto simp: ordered_def sorted_wrt_append)
        with h show "lamb_t asc (k a) (k i)" by (auto intro: lamb_t_trans)
      qed
      moreover have "ins_scan k asc i (j # rp) B = Some (rev rp @ i # j # B)"
        using True stop by simp
      moreover have "\<forall>c\<in>set (j # B). lamb asc (k i) (k c)"
        using True Cons.prems(2) by simp
      ultimately have "\<exists>A C. rev (j # rp) @ B = A @ C \<and> rev rp @ i # j # B = A @ i # C
               \<and> (\<forall>a\<in>set A. lamb_t asc (k a) (k i)) \<and> (\<forall>c\<in>set C. lamb asc (k i) (k c))"
        by (intro exI [of _ "rev rp"] exI [of _ "j # B"]) simp
      with \<open>ins_scan k asc i (j # rp) B = Some (rev rp @ i # j # B)\<close> show ?thesis
        by (simp only: option.case)
    next
      case go: False
      then have ne: "rp \<noteq> []" and gt: "lamb asc (k i) (k (hd rp))"
        by (auto simp: ln)
      from Cons.prems(1) have "ordered k asc (rev rp @ j # B)" by simp
      moreover from True Cons.prems(2) have "\<forall>b\<in>set (j # B). lamb asc (k i) (k b)" by simp
      moreover from ne gt have "j # B \<noteq> [] \<longrightarrow> rp \<noteq> [] \<and> lamb asc (k i) (k (hd rp))" by simp
      ultimately have "case ins_scan k asc i rp (j # B) of
           None \<Rightarrow> j # B = [] \<and> (\<forall>x\<in>set rp. lamb_t asc (k x) (k i))
         | Some ps' \<Rightarrow> (\<exists>A C. rev rp @ j # B = A @ C \<and> ps' = A @ i # C
               \<and> (\<forall>a\<in>set A. lamb_t asc (k a) (k i)) \<and> (\<forall>c\<in>set C. lamb asc (k i) (k c)))"
        by (rule Cons.IH)
      moreover have "ins_scan k asc i (j # rp) B = ins_scan k asc i rp (j # B)"
        using go by auto
      ultimately show ?thesis by (auto split: option.splits)
    qed
  qed
qed

lemma ins_scan_prefix:
  fixes k :: "addr \<Rightarrow> 'a::preorder"
  assumes tot: "\<forall>x y::'a. x \<le> y \<or> y \<le> x" and "ordered k asc ps"
  shows "case ins_scan k asc i (rev ps) [] of
           None \<Rightarrow> (\<forall>x\<in>set ps. lamb_t asc (k x) (k i))
         | Some ps' \<Rightarrow> (\<exists>A C. ps = A @ C \<and> ps' = A @ i # C
               \<and> (\<forall>a\<in>set A. lamb_t asc (k a) (k i)) \<and> (\<forall>c\<in>set C. lamb asc (k i) (k c)))"
proof -
  from assms(2) have "ordered k asc (rev (rev ps) @ [])" by simp
  from ins_scan_sorted [OF tot this, of i] show ?thesis
    by (auto split: option.splits)
qed

lemma ordered_insert:
  fixes k :: "addr \<Rightarrow> 'a::preorder"
  assumes "ordered k asc (A @ C)" "\<forall>a\<in>set A. lamb_t asc (k a) (k i)" "\<forall>c\<in>set C. lamb asc (k i) (k c)"
  shows "ordered k asc (A @ i # C)"
  using assms by (auto simp: ordered_def sorted_wrt_append intro: lamb_lamb_t)

lemma ins_all_mset: "mset (ins_all k asc ps rest) = mset ps + mset rest"
  by (induction rest arbitrary: ps) (auto split: option.splits dest: ins_scan_mset)

lemma ins_all_ordered:
  fixes k :: "addr \<Rightarrow> 'a::preorder"
  assumes tot: "\<forall>x y::'a. x \<le> y \<or> y \<le> x"
  shows "ordered k asc ps \<Longrightarrow> ordered k asc (ins_all k asc ps rest)"
proof (induction rest arbitrary: ps)
  case Nil
  then show ?case by simp
next
  case (Cons i rest)
  note r = ins_scan_prefix [OF tot Cons.prems, of i]
  show ?case
  proof (cases "ins_scan k asc i (rev ps) []")
    case None
    with r Cons.prems have "ordered k asc (ps @ [i])"
      by (auto simp: ordered_def sorted_wrt_append)
    from Cons.IH [OF this] None show ?thesis by simp
  next
    case (Some ps')
    with r Cons.prems have "ordered k asc ps'"
      by (auto intro: ordered_insert)
    from Cons.IH [OF this] Some show ?thesis by simp
  qed
qed

lemma ins_all_stable:
  fixes k :: "addr \<Rightarrow> 'a::preorder"
  assumes tot: "\<forall>x y::'a. x \<le> y \<or> y \<le> x"
  shows "ordered k asc ps \<Longrightarrow>
   filter (\<lambda>p. k p \<le> v \<and> v \<le> k p) (ins_all k asc ps rest)
     = filter (\<lambda>p. k p \<le> v \<and> v \<le> k p) (ps @ rest)"
proof (induction rest arbitrary: ps)
  case Nil
  then show ?case by simp
next
  case (Cons i rest)
  note r = ins_scan_prefix [OF tot Cons.prems, of i]
  show ?case
  proof (cases "ins_scan k asc i (rev ps) []")
    case None
    with r Cons.prems have "ordered k asc (ps @ [i])"
      by (auto simp: ordered_def sorted_wrt_append)
    from Cons.IH [OF this] None show ?thesis by simp
  next
    case (Some ps')
    with r obtain A C where AC: "ps = A @ C" "ps' = A @ i # C"
      "\<forall>a\<in>set A. lamb_t asc (k a) (k i)" "\<forall>c\<in>set C. lamb asc (k i) (k c)"
      by auto
    with Cons.prems have o: "ordered k asc ps'" by (auto intro: ordered_insert)
    from AC(4) have "k i \<le> v \<and> v \<le> k i \<Longrightarrow> filter (\<lambda>p. k p \<le> v \<and> v \<le> k p) C = []"
      using lamb_not_equiv [of asc "k i" _ v] by (fastforce simp: filter_empty_conv)
    with AC have "filter (\<lambda>p. k p \<le> v \<and> v \<le> k p) (ps' @ rest)
        = filter (\<lambda>p. k p \<le> v \<and> v \<le> k p) (ps @ i # rest)"
      by auto
    with Cons.IH [OF o] Some show ?thesis by simp
  qed
qed

lemma isort_mset: "mset (isort k asc ns) = mset ns"
  by (cases ns) (simp_all add: isort_def ins_all_mset)

lemma ordered_single: "ordered k asc [a]"
  by (simp add: ordered_def)

lemma ordered_Nil: "ordered k asc []"
  by (simp add: ordered_def)

lemma isort_ordered:
  fixes k :: "addr \<Rightarrow> 'a::preorder"
  assumes "\<forall>x y::'a. x \<le> y \<or> y \<le> x"
  shows "ordered k asc (isort k asc ns)"
  by (cases ns) (simp_all add: isort_def ins_all_ordered [OF assms] ordered_single ordered_Nil)

lemma isort_stable:
  fixes k :: "addr \<Rightarrow> 'a::preorder"
  assumes "\<forall>x y::'a. x \<le> y \<or> y \<le> x"
  shows "filter (\<lambda>p. k p \<le> v \<and> v \<le> k p) (isort k asc ns) = filter (\<lambda>p. k p \<le> v \<and> v \<le> k p) ns"
  by (cases ns) (simp_all add: isort_def ins_all_stable [OF assms] ordered_single)

lemma ordered_values:
  "ordered k asc ns \<Longrightarrow>
   (if asc then sorted_wrt (\<le>) (map k ns) else sorted_wrt (\<ge>) (map k ns))"
  by (cases asc) (simp_all add: ordered_def lamb_t_def sorted_wrt_map)

section \<open>Claims about sort\<close>

lemma client_sort_inv: "List_inv (client_lists [3, 1, 2] []) 1 [10, 11, 12]"
  by code_simp

text \<open>
  Claim C1. On a well-formed list whose elements are linearly ordered, \<^verbatim>\<open>sort(true)\<close>
  returns and leaves a well-formed list of the same nodes (no node is allocated or
  freed, no element is changed) whose values, read front to back, never decrease and
  form the same multiset as before; \<^verbatim>\<open>sort(false)\<close> does the same with values that
  never increase. On a list of size 0 or 1 the call returns at once with the store
  as it was.
\<close>

theorem sort_List_sorts:
  fixes h :: "'a::linorder heap"
  assumes "List_inv h this ns"
  shows "\<exists>h' ns'. sort_List h this ascending = Some h' \<and> List_inv h' this ns'
           \<and> mset ns' = mset ns \<and> data_f h' = data_f h \<and> live h' = live h
           \<and> to_list h' this = Some (map (data_f h) ns')
           \<and> mset (map (data_f h) ns') = mset (map (data_f h) ns)
           \<and> (if ascending then sorted_wrt (\<le>) (map (data_f h) ns')
                else sorted_wrt (\<ge>) (map (data_f h) ns'))
           \<and> (length ns < 2 \<longrightarrow> h' = h)"
proof -
  let ?ns = "isort (data_f h) ascending ns"
  have tot: "\<forall>x y::'a. x \<le> y \<or> y \<le> x" by (simp add: linear)
  from sort_List_refine [OF assms, of ascending] obtain h' where
    h': "sort_List h this ascending = Some h'" "List_inv h' this ?ns"
      "data_f h' = data_f h" "live h' = live h" "length ns < 2 \<longrightarrow> h' = h"
    by blast
  have m: "mset ?ns = mset ns" by (rule isort_mset)
  then have "mset (map (data_f h) ?ns) = mset (map (data_f h) ns)"
    by (metis mset_map)
  moreover from List_inv_to_list [OF h'(2)] h'(3)
  have "to_list h' this = Some (map (data_f h) ?ns)" by simp
  moreover note ordered_values [OF isort_ordered [OF tot, of "data_f h" ascending ns]]
  ultimately show ?thesis using h' m by blast
qed

lemma client_single_inv: "List_inv (client_lists [7] []) 1 [10]"
  by code_simp

theorem sort_List_sorts_witness:
  "List_inv (client_lists [3, 1, 2] []) 1 [10, 11, 12]
   \<and> (\<exists>h' ns'. sort_List (client_lists [3, 1, 2] []) 1 True = Some h' \<and> List_inv h' 1 ns'
           \<and> mset ns' = mset [10, 11, 12]
           \<and> to_list h' 1 = Some (map (data_f (client_lists [3, 1, 2] [])) ns')
           \<and> sorted_wrt (\<le>) (map (data_f (client_lists [3, 1, 2] [])) ns'))
   \<and> (\<exists>h' ns'. sort_List (client_lists [3, 1, 2] []) 1 False = Some h' \<and> List_inv h' 1 ns'
           \<and> mset ns' = mset [10, 11, 12]
           \<and> to_list h' 1 = Some (map (data_f (client_lists [3, 1, 2] [])) ns')
           \<and> sorted_wrt (\<ge>) (map (data_f (client_lists [3, 1, 2] [])) ns'))
   \<and> List_inv (client_lists [7] []) 1 [10]
   \<and> sort_List (client_lists [7] []) 1 True = Some (client_lists [7] [])"
proof -
  have "\<exists>h' ns'. sort_List (client_lists [3, 1, 2] []) 1 True = Some h' \<and> List_inv h' 1 ns'
           \<and> mset ns' = mset [10, 11, 12]
           \<and> to_list h' 1 = Some (map (data_f (client_lists [3, 1, 2] [])) ns')
           \<and> sorted_wrt (\<le>) (map (data_f (client_lists [3, 1, 2] [])) ns')"
    using sort_List_sorts [OF client_sort_inv, of True] by auto
  moreover
  have "\<exists>h' ns'. sort_List (client_lists [3, 1, 2] []) 1 False = Some h' \<and> List_inv h' 1 ns'
           \<and> mset ns' = mset [10, 11, 12]
           \<and> to_list h' 1 = Some (map (data_f (client_lists [3, 1, 2] [])) ns')
           \<and> sorted_wrt (\<ge>) (map (data_f (client_lists [3, 1, 2] [])) ns')"
    using sort_List_sorts [OF client_sort_inv, of False] by auto
  moreover
  have "sort_List (client_lists [7] []) 1 True = Some (client_lists [7] [])"
    using sort_List_sorts [OF client_single_inv, of True] by auto
  ultimately show ?thesis using client_sort_inv client_single_inv by blast
qed

text \<open>
  Claim C8. \<^verbatim>\<open>sort\<close> is stable, in both directions. The element type may be any type
  whose \<open>\<le>\<close> is a total preorder with \<open><\<close> its strict part, so elements may compare
  equal without being the same. On a well-formed list the call returns, and for every
  value \<open>v\<close> the nodes whose element compares equal to \<open>v\<close> stand in the same relative
  order after the call as before.
\<close>

theorem sort_List_stable:
  fixes h :: "'a::preorder heap"
  assumes "\<forall>x y::'a. x \<le> y \<or> y \<le> x" and "List_inv h this ns"
  shows "\<exists>h' ns'. sort_List h this ascending = Some h' \<and> List_inv h' this ns'
           \<and> data_f h' = data_f h \<and> mset ns' = mset ns
           \<and> (\<forall>v. filter (\<lambda>p. data_f h p \<le> v \<and> v \<le> data_f h p) ns'
                  = filter (\<lambda>p. data_f h p \<le> v \<and> v \<le> data_f h p) ns)"
proof -
  from sort_List_refine [OF assms(2), of ascending] obtain h' where
    "sort_List h this ascending = Some h'"
    "List_inv h' this (isort (data_f h) ascending ns)" "data_f h' = data_f h"
    by blast
  then show ?thesis
    using isort_stable [OF assms(1), of "data_f h" _ ascending ns]
      isort_mset [of "data_f h" ascending ns]
    by blast
qed

lemma item_total: "\<forall>x y::item. x \<le> y \<or> y \<le> x"
  by (auto simp: less_eq_item_def)

lemma item_lists_inv:
  "List_inv (item_lists [Item 2 0, Item 1 1, Item 2 2, Item 1 3] []) 1 [10, 11, 12, 13]"
  by code_simp

lemma item_lists_sorted:
  "Option.bind (sort_List (item_lists [Item 2 0, Item 1 1, Item 2 2, Item 1 3] []) 1 True)
       (\<lambda>h. to_list h 1) = Some [Item 1 1, Item 1 3, Item 2 0, Item 2 2]
   \<and> Option.bind (sort_List (item_lists [Item 2 0, Item 1 1, Item 2 2, Item 1 3] []) 1 False)
       (\<lambda>h. to_list h 1) = Some [Item 2 0, Item 2 2, Item 1 1, Item 1 3]"
  by code_simp

theorem sort_List_stable_witness:
  "(\<forall>x y::item. x \<le> y \<or> y \<le> x)
   \<and> List_inv (item_lists [Item 2 0, Item 1 1, Item 2 2, Item 1 3] []) 1 [10, 11, 12, 13]
   \<and> (\<exists>h' ns'. sort_List (item_lists [Item 2 0, Item 1 1, Item 2 2, Item 1 3] []) 1 True = Some h'
         \<and> List_inv h' 1 ns'
         \<and> (\<forall>v. filter (\<lambda>p. data_f (item_lists [Item 2 0, Item 1 1, Item 2 2, Item 1 3] []) p \<le> v
                          \<and> v \<le> data_f (item_lists [Item 2 0, Item 1 1, Item 2 2, Item 1 3] []) p) ns'
                = filter (\<lambda>p. data_f (item_lists [Item 2 0, Item 1 1, Item 2 2, Item 1 3] []) p \<le> v
                          \<and> v \<le> data_f (item_lists [Item 2 0, Item 1 1, Item 2 2, Item 1 3] []) p)
                    [10, 11, 12, 13]))
   \<and> Option.bind (sort_List (item_lists [Item 2 0, Item 1 1, Item 2 2, Item 1 3] []) 1 True)
       (\<lambda>h. to_list h 1) = Some [Item 1 1, Item 1 3, Item 2 0, Item 2 2]"
  using sort_List_stable [OF item_total item_lists_inv, of True] item_total item_lists_inv
    item_lists_sorted
  by blast

section \<open>Claims about reverse\<close>

lemma flip_empty: "flip {} h = h"
  by (simp add: flip_def)

lemma flip_flip: "flip S (flip S h) = h"
  by (rule heap.equality) (auto simp: flip_def fun_eq_iff)

lemma flip_step:
  "a \<notin> S \<Longrightarrow>
   (flip S h)\<lparr>next_f := (next_f (flip S h))(a := prev_f (flip S h) a),
              prev_f := (prev_f (flip S h))(a := next_f (flip S h) a)\<rparr>
     = flip (insert a S) h"
  by (rule heap.equality) (auto simp: flip_def fun_eq_iff)

lemma flip_insert:
  "a \<notin> S \<Longrightarrow>
   flip S (h\<lparr>next_f := (next_f h)(a := prev_f h a), prev_f := (prev_f h)(a := next_f h a)\<rparr>)
     = flip (insert a S) h"
  by (rule heap.equality) (auto simp: flip_def fun_eq_iff)

lemma flip_fields [simp]:
  "data_f (flip S h) = data_f h" "live (flip S h) = live h" "sz_f (flip S h) = sz_f h"
  by (simp_all add: flip_def)

lemma in_set_tl: "x \<in> set (tl xs) \<Longrightarrow> x \<in> set xs"
  by (cases xs) auto

lemma chain_flip: "set p \<subseteq> S \<Longrightarrow> chain (flip S h) (rev p) = chain h p"
  unfolding chain_def successively_rev
  by (rule successively_cong) (auto simp: flip_def)

lemma reverse_loop_flip:
  "this \<notin> set ns \<Longrightarrow> distinct ns \<Longrightarrow> chain h (ns @ [this])
   \<Longrightarrow> reverse_loop h this (hd (ns @ [this])) = Some (flip (set ns) h)"
proof (induction ns arbitrary: h)
  case Nil
  show ?case by (subst reverse_loop.simps) (simp add: end_List_def flip_empty)
next
  case (Cons a ns)
  let ?h1 = "h\<lparr>next_f := (next_f h)(a := prev_f h a), prev_f := (prev_f h)(a := next_f h a)\<rparr>"
  from Cons.prems have a: "a \<noteq> this" "a \<notin> set ns" and d: "this \<notin> set ns" "distinct ns"
    by auto
  from Cons.prems(3) have nx: "next_f h a = hd (ns @ [this])" and c: "chain h (ns @ [this])"
    by (cases ns; simp)+
  have "chain ?h1 (ns @ [this]) = chain h (ns @ [this])"
    using a d by (intro chain_eqI) (auto dest: in_set_butlastD in_set_tl)
  with c have "chain ?h1 (ns @ [this])" by simp
  from Cons.IH [OF d this] have "reverse_loop ?h1 this (hd (ns @ [this])) = Some (flip (set (a # ns)) h)"
    using a by (simp add: flip_insert)
  with a nx show ?case
    by (subst reverse_loop.simps) (simp add: end_List_def Let_def)
qed

lemma reverse_flip:
  assumes "List_inv h this ns"
  shows "reverse h this = Some (flip (set (this # ns)) h)"
proof -
  from assms have d: "this \<notin> set ns" "distinct ns" and c: "chain h (this # ns @ [this])"
    by (auto simp: List_inv_def)
  from c have nx: "next_f h this = hd (ns @ [this])" and c': "chain h (ns @ [this])"
    by (cases ns; simp)+
  from reverse_loop_flip [OF d c'] d show ?thesis
    by (simp add: reverse_def begin_List_def end_List_def nx flip_step)
qed

lemma client_reverse_inv: "List_inv (client_lists [1, 2, 3] []) 1 [10, 11, 12]"
  by code_simp

text \<open>
  Claim C9. On a well-formed list \<^verbatim>\<open>reverse()\<close> returns and leaves a well-formed list of
  the same nodes in reverse order: forward iteration yields the old sequence of values
  reversed, \<^verbatim>\<open>size()\<close> is unchanged, no node is allocated or freed and no element is
  touched. A second \<^verbatim>\<open>reverse()\<close> gives back the store the first one started from.
\<close>

theorem reverse_reverses:
  assumes "List_inv h this ns"
  shows "\<exists>h'. reverse h this = Some h' \<and> List_inv h' this (rev ns)
           \<and> to_list h' this = Some (rev (map (data_f h) ns))
           \<and> size_List h' this = size_List h this
           \<and> live h' = live h \<and> data_f h' = data_f h
           \<and> reverse h' this = Some h"
proof -
  let ?S = "set (this # ns)"
  let ?h = "flip ?S h"
  from assms have d: "distinct (this # ns)" and c: "chain h (this # ns @ [this])"
    and sz: "unat (sz_f h this) = length ns" "set ns \<subseteq> live h"
    by (auto simp: List_inv_def)
  have "chain ?h (rev (this # ns @ [this])) = chain h (this # ns @ [this])"
    by (rule chain_flip) auto
  with c have "chain ?h (this # rev ns @ [this])" by simp
  with d sz have inv: "List_inv ?h this (rev ns)" by (auto simp: List_inv_def)
  from List_inv_to_list [OF inv] have tl: "to_list ?h this = Some (rev (map (data_f h) ns))"
    by (simp add: rev_map)
  from reverse_flip [OF inv] have "reverse ?h this = Some h" by (simp add: flip_flip)
  with reverse_flip [OF assms] inv tl show ?thesis by (simp add: size_List_def)
qed

theorem reverse_reverses_witness:
  "List_inv (client_lists [1, 2, 3] []) 1 [10, 11, 12]
   \<and> (\<exists>h'. reverse (client_lists [1, 2, 3] []) 1 = Some h' \<and> List_inv h' 1 [12, 11, 10]
          \<and> to_list h' 1 = Some (rev (map (data_f (client_lists [1, 2, 3] [])) [10, 11, 12]))
          \<and> reverse h' 1 = Some (client_lists [1, 2, 3] []))"
  using reverse_reverses [OF client_reverse_inv] client_reverse_inv by auto

section \<open>Claims about erase\<close>

lemma erase_fields:
  "data_f (fst (erase h this it)) = data_f h"
  "live (fst (erase h this it)) = live h - {it}"
  "sz_f (fst (erase h this it)) = (sz_f h)(this := sz_f h this - 1)"
  "snd (erase h this it) = it"
  "next_f (fst (erase h this it)) = (next_f h)(prev_f h it := next_f h it)"
  "prev_f (fst (erase h this it))
     = (prev_f h)(((next_f h)(prev_f h it := next_f h it)) it := prev_f h it)"
  by (simp_all add: erase_def obj_destruct_def Let_def)

lemma erase_chain:
  assumes d: "distinct (this # A @ x # B)" and c: "chain h (this # A @ x # B @ [this])"
  shows "chain (fst (erase h this x)) (this # A @ B @ [this])"
proof -
  let ?P = "this # A" and ?Q = "B @ [this]"
  let ?h = "fst (erase h this x)"
  from c have c1: "chain h (?P @ [x])" and c2: "chain h ([x] @ ?Q)"
    using chain_append [of h ?P x ?Q] by auto
  from c1 have cP: "chain h ?P" and jp: "next_f h (last ?P) = x" "prev_f h x = last ?P"
    using chain_app2 [of ?P "[x]" h] by auto
  from c2 have cQ: "chain h ?Q" and jq: "next_f h x = hd ?Q" "prev_f h (hd ?Q) = x"
    using chain_app2 [of "[x]" ?Q h] by auto
  have m1: "last ?P \<in> set ?P" by (rule last_in_set) simp
  have m2: "hd ?Q \<in> set ?Q" by (rule hd_in_set) simp
  note mem = m1 m2
  from d mem have xl: "x \<noteq> last ?P" by (auto simp del: last.simps)
  have nx: "next_f ?h = (next_f h)(last ?P := hd ?Q)"
    and pv: "prev_f ?h = (prev_f h)(hd ?Q := last ?P)"
    using jp jq xl by (simp_all add: erase_fields del: last.simps)
  have lP: "last ?P \<notin> set (butlast ?P)" "last ?P \<notin> set (butlast ?Q)"
    using last_notin_butlast [of ?P] d mem(1) by (auto simp del: last.simps)
  have hQ: "hd ?Q \<notin> set (tl ?Q)" "hd ?Q \<notin> set (tl ?P)"
    using hd_notin_tl [of ?Q] d mem(2) by auto
  have cP': "chain ?h ?P"
    using lP(1) hQ(2) by (subst chain_eqI [of ?P ?h h]) (auto simp: nx pv cP simp del: last.simps)
  have cQ': "chain ?h ?Q"
    using lP(2) hQ(1) by (subst chain_eqI [of ?Q ?h h]) (auto simp: nx pv cQ simp del: last.simps)
  have "chain ?h (?P @ ?Q)"
    using cP' cQ' by (subst chain_app2) (simp_all add: nx pv del: last.simps)
  then show ?thesis by simp
qed

text \<open>
  Claim C10, as the code has it. On a well-formed list and an iterator at one of its
  real nodes, \<^verbatim>\<open>erase(it)\<close> unlinks and frees exactly that node: the remaining nodes keep
  their order, forward iteration yields the old values without the erased one, and
  \<^verbatim>\<open>size()\<close> drops by one. The call returns nothing and does not advance the iterator
  it was given: after the call the caller's iterator still holds the address of the
  erased node, which is no longer live and no longer on the chain.
\<close>

theorem erase_removes_node:
  assumes inv: "List_inv h this ns" and it: "it \<in> set ns"
  shows "List_inv (fst (erase h this it)) this (remove1 it ns)
       \<and> to_list (fst (erase h this it)) this = Some (map (data_f h) (remove1 it ns))
       \<and> size_List (fst (erase h this it)) this = size_List h this - 1
       \<and> unat (size_List (fst (erase h this it)) this) = length ns - 1
       \<and> live (fst (erase h this it)) = live h - {it}
       \<and> snd (erase h this it) = it
       \<and> it \<notin> set (remove1 it ns)"
proof -
  let ?h = "fst (erase h this it)"
  from it obtain A B where ns: "ns = A @ it # B" by (auto dest: split_list)
  from inv ns have d: "distinct (this # A @ it # B)"
    and c: "chain h (this # A @ it # B @ [this])"
    and sz: "unat (sz_f h this) = length ns" and lv: "set ns \<subseteq> live h"
    by (auto simp: List_inv_def)
  from d have rm: "remove1 it ns = A @ B" by (simp add: ns remove1_append)
  from sz it have "sz_f h this \<noteq> 0" by (auto simp: ns)
  then have u: "unat (sz_f h this - 1) = length ns - 1"
    by (simp add: unat_minus_one sz)
  have inv': "List_inv ?h this (A @ B)"
    using erase_chain [OF d c] d lv u
    by (auto simp: List_inv_def erase_fields ns)
  from List_inv_to_list [OF inv'] have "to_list ?h this = Some (map (data_f h) (A @ B))"
    by (simp add: erase_fields)
  with inv' rm u d show ?thesis
    by (auto simp: size_List_def erase_fields)
qed

theorem erase_removes_node_witness:
  "List_inv (client_lists [1, 2, 3] []) 1 [10, 11, 12] \<and> (11::nat) \<in> set [10, 11, 12]
   \<and> List_inv (fst (erase (client_lists [1, 2, 3] []) 1 11)) 1 [10, 12]
   \<and> to_list (fst (erase (client_lists [1, 2, 3] []) 1 11)) 1
        = Some (map (data_f (client_lists [1, 2, 3] [])) [10, 12])
   \<and> snd (erase (client_lists [1, 2, 3] []) 1 11) = 11"
  using erase_removes_node [OF client_reverse_inv, of 11] client_reverse_inv by simp

text \<open>
  Claim C10, as the spec states it, fails: erasing the node with value 2 from
  \<open>[1, 2, 3]\<close> leaves \<open>[1, 3]\<close>, but the only iterator the caller has after the call
  is the one passed in, and it is still the erased, freed node (address 11).
\<close>

theorem erase_iterator_counterexample:
  "to_list (client_lists [1, 2, 3] []) 1 = Some [1, 2, 3]
   \<and> data_f (client_lists [1, 2, 3] []) 11 = 2
   \<and> to_list (fst (erase (client_lists [1, 2, 3] []) 1 11)) 1 = Some [1, 3]
   \<and> snd (erase (client_lists [1, 2, 3] []) 1 11) = 11
   \<and> 11 \<notin> live (fst (erase (client_lists [1, 2, 3] []) 1 11))"
  by code_simp

section \<open>Operations that break the representation\<close>

text \<open>
  Claim C2. \<^verbatim>\<open>a.merge(b)\<close> with \<open>a = [1]\<close> and \<open>b = [2]\<close>: the copy is appended and
  \<open>b\<close> is untouched, but \<^verbatim>\<open>a.size()\<close> is still 1, not \<open>1 + 1\<close>: the loop never
  increments \<^verbatim>\<open>sz_\<close>.
\<close>

theorem merge_copy_keeps_old_size:
  "size_List (client_lists [1] [2]) 1 = 1 \<and> size_List (client_lists [1] [2]) 2 = 1
   \<and> map_option (\<lambda>(h, r). (r, to_list h 1, to_list h 2, size_List h 1, size_List h 2))
        (merge pool (client_lists [1] [2]) 1 2) = Some (Inr (), Some [1, 2], Some [2], 1, 1)"
  by code_simp

text \<open>
  Claim C3. \<^verbatim>\<open>a = std::move(b)\<close> with \<open>a = [1]\<close> and \<open>b\<close> empty: afterwards \<open>b\<close> is
  empty and \<^verbatim>\<open>a.size()\<close> is 0, but \<^verbatim>\<open>a.begin()\<close> is \<open>b\<close>'s sentinel (address 2), not
  \<^verbatim>\<open>a.end()\<close> (address 1), and \<open>b\<close>'s sentinel points to itself: forward iteration
  over \<open>a\<close> never reaches \<^verbatim>\<open>a.end()\<close>.
\<close>

lemma iterate_stuck_aux:
  assumes "iterate h e it = Some y"
  shows "\<not> (next_f h it = it \<and> it \<noteq> e)"
  by (rule iterate.raw_induct [OF _ assms]) (auto simp: bind_eq_Some_conv split: if_splits)

lemma iterate_stuck: "next_f h it = it \<Longrightarrow> it \<noteq> e \<Longrightarrow> iterate h e it = None"
  using iterate_stuck_aux [of h e it] by (cases "iterate h e it") auto

lemma move_assign_empty_links:
  "map_option (\<lambda>h. (begin_List h 1, end_List h 1, next_f h 2, size_List h 1, size_List h 2))
     (move_assign (client_lists [1] []) 1 2) = Some (2, 1, 2, 0, 0)"
  by code_simp

theorem move_assign_empty_source:
  "to_list (client_lists [1] []) 2 = Some []
   \<and> map_option (\<lambda>h. (begin_List h 1, end_List h 1, size_List h 1, to_list h 1, to_list h 2))
        (move_assign (client_lists [1] []) 1 2) = Some (2, 1, 0, None, Some [])"
proof -
  obtain h where h: "move_assign (client_lists [1] []) 1 2 = Some h"
    and f: "begin_List h 1 = 2" "end_List h 1 = 1" "next_f h 2 = 2" "size_List h 1 = 0"
    using move_assign_empty_links by (auto simp: map_option_case split: option.splits)
  have "to_list h 1 = None"
    using iterate_stuck [of h 2 1] f by (simp add: to_list_def)
  moreover have "to_list h 2 = Some []"
    using f by (subst to_list_def, subst iterate.simps) (simp add: begin_List_def end_List_def)
  moreover have "to_list (client_lists [1] []) 2 = Some []" by code_simp
  ultimately show ?thesis using h f by simp
qed

text \<open>
  Claim C4. \<^verbatim>\<open>a.swap(b)\<close> with \<open>a = [1]\<close> and \<open>b = [2]\<close>: the sentinels' links are
  exchanged, but the end nodes still point back at their old sentinels, so forward
  iteration over \<open>a\<close> runs through \<open>b\<close>'s node, \<open>b\<close>'s sentinel (value 0) and \<open>a\<close>'s
  old node before it reaches \<^verbatim>\<open>a.end()\<close>.
\<close>

theorem swap_keeps_back_links:
  "to_list (client_lists [1] [2]) 1 = Some [1] \<and> to_list (client_lists [1] [2]) 2 = Some [2]
   \<and> (\<lambda>h. (to_list h 1, to_list h 2, size_List h 1, size_List h 2))
        (swap (client_lists [1] [2]) 1 2) = (Some [2, 0, 1], Some [1, 0, 2], 1, 1)"
  by code_simp

text \<open>
  Claim C5. Both lists of \<open>client_lists [1] [2]\<close> are built by the constructor and
  \<^verbatim>\<open>push_back\<close> and satisfy the invariant. After \<^verbatim>\<open>a.merge(b)\<close> the chain of \<open>a\<close> runs
  through two real nodes (10 and 12), forwards and backwards, while \<^verbatim>\<open>a.size()\<close> is 1.
\<close>

theorem merge_copy_breaks_size_invariant:
  "List_inv (client_lists [1] [2]) 1 [10] \<and> List_inv (client_lists [1] [2]) 2 [11]
   \<and> map_option (\<lambda>(h, r). (chain h [1, 10, 12, 1], unat (size_List h 1), to_list_back h 1))
        (merge pool (client_lists [1] [2]) 1 2) = Some (True, 1, Some [2, 1])"
  by code_simp

text \<open>
  Claim C6. \<^verbatim>\<open>a = a\<close> with \<open>a = [1, 2]\<close>: \<^verbatim>\<open>clear()\<close> runs first, the copy loop then
  finds the source empty, and \<open>a\<close> ends empty with size 0.
\<close>

theorem copy_self_assign_empties:
  "to_list (client_lists [1, 2] []) 1 = Some [1, 2] \<and> size_List (client_lists [1, 2] []) 1 = 2
   \<and> map_option (\<lambda>(h, r). (r, to_list h 1, size_List h 1))
        (copy_assign pool (client_lists [1, 2] []) 1 1) = Some (Inr (), Some [], 0)"
  by code_simp

text \<open>
  Claim C7. \<^verbatim>\<open>a.push_back(7)\<close> on \<open>a = [1, 2]\<close> with an element constructor that
  throws: \<^verbatim>\<open>std::bad_alloc\<close> is signalled, the sequence and the size are as before, but
  the block the allocator handed out (address 12) stays allocated: the handler frees
  \<^verbatim>\<open>nullptr\<close>, not the block.
\<close>

theorem push_back_ctor_throw_leaks:
  "live (client_lists [1, 2] []) = {10, 11}
   \<and> (\<lambda>(h, r). (r, to_list h 1, size_List h 1, live h))
        (push_back (pool\<lparr>construct := (\<lambda>v. None)\<rparr>) (client_lists [1, 2] []) 1 7)
      = (Inl Bad_alloc, Some [1, 2], 2, {10, 11, 12})"
  by code_simp

end
